theory Spec2Isabelle
  imports
    Main
    "HOL-Library.Word"
    "HOL-Library.Sublist"
    "HOL-Library.Char_ord"
    "HOL-Library.List_Lexorder"
    "HOL-Library.Multiset"
begin

section \<open>The file system seen by llmify.py\<close>

text \<open>
  The script reads a directory tree and writes one text document. The tree is modelled
  as a datatype: a regular file carries its read and write permission and its bytes, a
  directory carries its read (listing) and write permission and its entries in the
  order in which the operating system enumerates them. A path is the list of its
  components, as \<^verbatim>\<open>pathlib\<close> keeps it; the tree's own root is the empty
  path. Symbolic links and special files are outside the model. File names are
  \<^typ>\<open>string\<close>s, whose characters are the code points below 256.
\<close>

type_synonym byte = "8 word"
type_synonym bytes = "byte list"
type_synonym path = "string list"

text \<open>A Python \<^verbatim>\<open>str\<close> read from or written to a text file: its code points.\<close>

type_synonym str = "nat list"

datatype node =
    File bool bool bytes
  | Dir bool bool "(string \<times> node) list"

datatype error =
    ValueError
  | FileNotFoundError
  | PermissionError
  | IsADirectoryError
  | NotADirectoryError

fun is_Dir :: "node \<Rightarrow> bool" where
  "is_Dir (Dir r w es) = True"
| "is_Dir (File r w d) = False"

fun lookup :: "node \<Rightarrow> path \<Rightarrow> node option" where
  "lookup n [] = Some n"
| "lookup (File r w d) (x # xs) = None"
| "lookup (Dir r w es) (x # xs) =
     (case map_of es x of None \<Rightarrow> None | Some c \<Rightarrow> lookup c xs)"

text \<open>
  \<^verbatim>\<open>Path.is_dir()\<close>: true for an existing directory, false for everything else,
  a missing entry included.
\<close>

definition is_dir :: "node \<Rightarrow> path \<Rightarrow> bool" where
  "is_dir fs p = (case lookup fs p of Some (Dir r w es) \<Rightarrow> True | _ \<Rightarrow> False)"

text \<open>
  \<^verbatim>\<open>open(file_path, 'rb')\<close> and \<^verbatim>\<open>open(file_path, 'r', ...)\<close>: the bytes of
  a readable regular file, or the exception raised.
\<close>

definition open_read :: "node \<Rightarrow> path \<Rightarrow> error + bytes" where
  "open_read fs p =
     (case lookup fs p of
        None \<Rightarrow> Inl FileNotFoundError
      | Some (Dir r w es) \<Rightarrow> Inl IsADirectoryError
      | Some (File r w d) \<Rightarrow> if r then Inr d else Inl PermissionError)"

subsection \<open>is\_text\_file (lines 55 to 71)\<close>

definition is_text_file :: "node \<Rightarrow> path \<Rightarrow> bool" where
  "is_text_file fs file_path =
     (case open_read fs file_path of
        Inl e \<Rightarrow> False
      | Inr d \<Rightarrow> (let chunk = take 1024 d in (0 :: byte) \<notin> set chunk))"

subsection \<open>os.walk\<close>

text \<open>
  \<^verbatim>\<open>os.walk(top)\<close>, top-down and with its default \<^verbatim>\<open>onerror=None\<close>: one triple
  (directory, names of its subdirectories, names of its other entries) for the
  directory itself and then the triples of each subdirectory, in the order of the
  listing. A directory that cannot be listed, a missing one or a path to a file yields
  nothing: the error of the listing is dropped.
\<close>

fun walk :: "path \<Rightarrow> node \<Rightarrow> (path \<times> string list \<times> string list) list" where
  "walk here (File r w d) = []"
| "walk here (Dir r w es) =
     (if r then
        (here, map fst (filter (\<lambda>e. is_Dir (snd e)) es),
              map fst (filter (\<lambda>e. \<not> is_Dir (snd e)) es))
        # concat (map (\<lambda>e. if is_Dir (snd e) then walk (here @ [fst e]) (snd e) else []) es)
      else [])"

definition os_walk :: "node \<Rightarrow> path \<Rightarrow> (path \<times> string list \<times> string list) list" where
  "os_walk fs here = (case lookup fs here of None \<Rightarrow> [] | Some n \<Rightarrow> walk here n)"

subsection \<open>Paths and text\<close>

definition startswith :: "string \<Rightarrow> string \<Rightarrow> bool" where
  "startswith s p = prefix p s"

definition endswith :: "string \<Rightarrow> string \<Rightarrow> bool" where
  "endswith s p = suffix p s"

text \<open>\<^verbatim>\<open>file_path.relative_to(base_dir)\<close> raises ValueError outside \<^verbatim>\<open>base_dir\<close>.\<close>

definition relative_to :: "path \<Rightarrow> path \<Rightarrow> error + path" where
  "relative_to file_path base_dir =
     (if prefix base_dir file_path then Inr (drop (length base_dir) file_path)
      else Inl ValueError)"

text \<open>\<^verbatim>\<open>str\<close> of a relative path: its parts joined by a slash, a dot when there are none.\<close>

fun join_parts :: "path \<Rightarrow> string" where
  "join_parts [] = []"
| "join_parts [x] = x"
| "join_parts (x # y # ys) = x @ ''/'' @ join_parts (y # ys)"

definition str_path :: "path \<Rightarrow> string" where
  "str_path parts = (if parts = [] then ''.'' else join_parts parts)"

definition text_of :: "string \<Rightarrow> str" where
  "text_of s = map of_char s"

subsection \<open>Reading a file as text (line 47 and 48)\<close>

text \<open>
  The file is opened with \<^verbatim>\<open>encoding='utf-8', errors='replace'\<close> and the default
  \<^verbatim>\<open>newline=None\<close>: its bytes are decoded, then the line ends are translated.
\<close>

text \<open>
  Modelled from the spec: the decoder behind \<^verbatim>\<open>encoding='utf-8', errors='replace'\<close>
  is the Python runtime's, no code of this repository. The spec asks for a lossy but
  total decoding: any byte sequence that cannot be decoded is replaced by a visible
  placeholder character, and decoding never fails. The model makes that precise the
  way the runtime's decoder works, byte by byte: a well-formed sequence gives its code
  point; a byte that cannot start a sequence, a sequence broken by a byte that cannot
  continue it, and a sequence cut by the end of the data each give one U+FFFD, which
  stands for the bytes read so far of that sequence. Overlong forms, surrogates and
  values above U+10FFFF are refused at the second byte. \<open>decode_one b0 rest\<close>
  returns the code point and the number of bytes it stands for.
\<close>

definition is_continuation :: "nat \<Rightarrow> bool" where
  "is_continuation b \<longleftrightarrow> 0x80 \<le> b \<and> b < 0xC0"

definition decode_one :: "nat \<Rightarrow> nat list \<Rightarrow> nat \<times> nat" where
  "decode_one b0 rest =
     (if b0 < 0x80 then (b0, 1)
      else if b0 < 0xC2 then (0xFFFD, 1)
      else if b0 < 0xE0 then
        (case rest of
           [] \<Rightarrow> (0xFFFD, 1)
         | b1 # rest1 \<Rightarrow>
             if is_continuation b1 then ((b0 - 0xC0) * 64 + (b1 - 0x80), 2)
             else (0xFFFD, 1))
      else if b0 < 0xF0 then
        (case rest of
           [] \<Rightarrow> (0xFFFD, 1)
         | b1 # rest1 \<Rightarrow>
             if \<not> is_continuation b1 \<or> (if b1 < 0xA0 then b0 = 0xE0 else b0 = 0xED)
             then (0xFFFD, 1)
             else
               (case rest1 of
                  [] \<Rightarrow> (0xFFFD, 2)
                | b2 # rest2 \<Rightarrow>
                    if is_continuation b2
                    then (((b0 - 0xE0) * 64 + (b1 - 0x80)) * 64 + (b2 - 0x80), 3)
                    else (0xFFFD, 2)))
      else if b0 < 0xF5 then
        (case rest of
           [] \<Rightarrow> (0xFFFD, 1)
         | b1 # rest1 \<Rightarrow>
             if \<not> is_continuation b1 \<or> (if b1 < 0x90 then b0 = 0xF0 else b0 = 0xF4)
             then (0xFFFD, 1)
             else
               (case rest1 of
                  [] \<Rightarrow> (0xFFFD, 2)
                | b2 # rest2 \<Rightarrow>
                    if \<not> is_continuation b2 then (0xFFFD, 2)
                    else
                      (case rest2 of
                         [] \<Rightarrow> (0xFFFD, 3)
                       | b3 # rest3 \<Rightarrow>
                           if is_continuation b3
                           then ((((b0 - 0xF0) * 64 + (b1 - 0x80)) * 64 + (b2 - 0x80)) * 64
                                   + (b3 - 0x80), 4)
                           else (0xFFFD, 3))))
      else (0xFFFD, 1))"

text \<open>
  The decoded text as the list of its pieces: the bytes each code point stands for,
  and the code point.
\<close>

fun decode_pieces :: "nat list \<Rightarrow> (nat list \<times> nat) list" where
  "decode_pieces [] = []"
| "decode_pieces (b # bs) =
     (case decode_one b bs of
        (c, n) \<Rightarrow> (b # take (n - 1) bs, c) # decode_pieces (drop (n - 1) bs))"

definition decode_utf8_replace :: "bytes \<Rightarrow> str" where
  "decode_utf8_replace d = map snd (decode_pieces (map unat d))"

text \<open>
  Universal newlines, the reading mode of \<^verbatim>\<open>newline=None\<close>: a carriage return
  followed by a line feed, and a carriage return alone, are each read as one line feed.
\<close>

fun universal_newlines :: "str \<Rightarrow> str" where
  "universal_newlines [] = []"
| "universal_newlines [c] = (if c = 13 then [10] else [c])"
| "universal_newlines (c # c' # cs) =
     (if c = 13 \<and> c' = 10 then 10 # universal_newlines cs
      else if c = 13 then 10 # universal_newlines (c' # cs)
      else c # universal_newlines (c' # cs))"

definition read_text :: "node \<Rightarrow> path \<Rightarrow> error + str" where
  "read_text fs file_path =
     (case open_read fs file_path of
        Inl e \<Rightarrow> Inl e
      | Inr d \<Rightarrow> Inr (universal_newlines (decode_utf8_replace d)))"

subsection \<open>process\_directory (lines 11 to 53)\<close>

text \<open>
  What the run leaves behind: the text written to \<^verbatim>\<open>output_file\<close>, and the lines
  printed to standard output and to standard error, each line kept as the values it is
  formatted from.
\<close>

datatype diag =
    Starting path
  | Output_to path
  | Processed path
  | Error_processing path error
  | Done path

record run =
  output_file :: str
  stdout :: "diag list"
  stderr :: "diag list"

text \<open>The inner loop of lines 22 to 32, over the file names of one directory.\<close>

fun scan_files :: "node \<Rightarrow> path \<Rightarrow> string list \<Rightarrow> path list \<Rightarrow> path list" where
  "scan_files fs root [] all_files = all_files"
| "scan_files fs root (file # files) all_files =
     (if startswith file ''llmify'' \<or> endswith file ''.md.llm''
      then scan_files fs root files all_files
      else
        let file_path = root @ [file] in
        if is_dir fs file_path \<or> \<not> is_text_file fs file_path
        then scan_files fs root files all_files
        else scan_files fs root files (all_files @ [file_path]))"

text \<open>The outer loop of line 21, over the triples of the walk.\<close>

fun scan_walk ::
  "node \<Rightarrow> (path \<times> string list \<times> string list) list \<Rightarrow> path list \<Rightarrow> path list" where
  "scan_walk fs [] all_files = all_files"
| "scan_walk fs ((root, dirs, files) # rest) all_files =
     scan_walk fs rest (scan_files fs root files all_files)"

text \<open>
  Lines 20 to 35: the list \<^verbatim>\<open>all_files\<close> after \<^verbatim>\<open>all_files.sort()\<close>. Paths
  compare as the lists of their parts, each part by code points.
\<close>

definition collect_files :: "node \<Rightarrow> path \<Rightarrow> path list" where
  "collect_files fs base_dir = sort (scan_walk fs (os_walk fs base_dir) [])"

definition heading :: "path \<Rightarrow> str" where
  "heading rel_path =
     text_of (''\<newline>\<newline>---\<newline>\<newline># '' @ str_path rel_path @ ''\<newline>\<newline>'')"

text \<open>
  One turn of the loop of lines 38 to 53. The heading is written before the file is
  opened; an exception of either step ends the turn with a line on standard error.
\<close>

definition process_file :: "node \<Rightarrow> path \<Rightarrow> path \<Rightarrow> run \<Rightarrow> run" where
  "process_file fs base_dir file_path st =
     (case relative_to file_path base_dir of
        Inl e \<Rightarrow> st\<lparr>stderr := stderr st @ [Error_processing file_path e]\<rparr>
      | Inr rel_path \<Rightarrow>
          let st1 = st\<lparr>output_file := output_file st @ heading rel_path\<rparr> in
          (case read_text fs file_path of
             Inl e \<Rightarrow> st1\<lparr>stderr := stderr st1 @ [Error_processing file_path e]\<rparr>
           | Inr content \<Rightarrow>
               st1\<lparr>output_file := output_file st1 @ content,
                   stdout := stdout st1 @ [Processed rel_path]\<rparr>))"

fun write_files :: "node \<Rightarrow> path \<Rightarrow> path list \<Rightarrow> run \<Rightarrow> run" where
  "write_files fs base_dir [] st = st"
| "write_files fs base_dir (file_path # rest) st =
     write_files fs base_dir rest (process_file fs base_dir file_path st)"

text \<open>
  The file system is read twice: while the tree is walked and the files are probed
  (\<open>fs_walk\<close>), and later when the listed files are opened for their content
  (\<open>fs_read\<close>). On a tree that nobody changes during the run the two are the same.
\<close>

definition process_directory :: "node \<Rightarrow> node \<Rightarrow> path \<Rightarrow> run \<Rightarrow> run" where
  "process_directory fs_walk fs_read base_dir st =
     write_files fs_read base_dir (collect_files fs_walk base_dir) st"

subsection \<open>main (lines 73 to 89)\<close>

text \<open>
  \<^verbatim>\<open>open(output_path, 'w')\<close>: the tree with the file created or emptied, or the
  exception raised.
\<close>

fun open_write :: "node \<Rightarrow> path \<Rightarrow> error + node" where
  "open_write (File r w d) [] = (if w then Inr (File r w []) else Inl PermissionError)"
| "open_write (Dir r w es) [] = Inl IsADirectoryError"
| "open_write (File r w d) (x # xs) = Inl NotADirectoryError"
| "open_write (Dir r w es) (x # xs) =
     (case map_of es x of
        None \<Rightarrow>
          if xs \<noteq> [] then Inl FileNotFoundError
          else if w then Inr (Dir r w (es @ [(x, File True True [])]))
          else Inl PermissionError
      | Some c \<Rightarrow>
          (case open_write c xs of
             Inl e \<Rightarrow> Inl e
           | Inr c' \<Rightarrow> Inr (Dir r w (map (\<lambda>e. if fst e = x then (x, c') else e) es))))"

definition banner :: str where
  "banner = text_of (''# OpenHands Microagents Documentation\<newline>\<newline>'' @
     ''This file contains the concatenated contents of all files in the .openhands/microagents directory.\<newline>'')"

definition main :: "node \<Rightarrow> path \<Rightarrow> error + run" where
  "main fs script_dir =
     (let output_path = script_dir @ [''microagents.md.llm''];
          st0 = \<lparr>output_file = [], stdout = [Starting script_dir, Output_to output_path], stderr = []\<rparr>
      in case open_write fs output_path of
           Inl e \<Rightarrow> Inl e
         | Inr fs' \<Rightarrow>
             let st1 = st0\<lparr>output_file := output_file st0 @ banner\<rparr>;
                 st2 = process_directory fs' fs' script_dir st1
             in Inr (st2\<lparr>stdout := stdout st2 @ [Done output_path]\<rparr>))"

section \<open>Notions used to state the properties\<close>

text \<open>
  The test of lines 24 and 29 on one file name of the directory \<open>root\<close>: the file
  is kept when neither \<^verbatim>\<open>continue\<close> is taken.
\<close>

definition accepted :: "node \<Rightarrow> path \<Rightarrow> string \<Rightarrow> bool" where
  "accepted fs root file \<longleftrightarrow>
     \<not> (startswith file ''llmify'' \<or> endswith file ''.md.llm'') \<and>
     \<not> (is_dir fs (root @ [file]) \<or> \<not> is_text_file fs (root @ [file]))"

definition found :: "node \<Rightarrow> (path \<times> string list \<times> string list) \<Rightarrow> path list" where
  "found fs t =
     (case t of (root, dirs, files) \<Rightarrow> map (\<lambda>f. root @ [f]) (filter (accepted fs root) files))"

definition listed_files :: "(path \<times> string list \<times> string list) list \<Rightarrow> path list" where
  "listed_files ws = concat (map (\<lambda>(root, dirs, files). map (\<lambda>f. root @ [f]) files) ws)"

text \<open>A tree is well formed when no directory lists a name twice.\<close>

fun wf_tree :: "node \<Rightarrow> bool" where
  "wf_tree (File r w d) = True"
| "wf_tree (Dir r w es) = (distinct (map fst es) \<and> (\<forall>e \<in> set es. wf_tree (snd e)))"

text \<open>
  \<open>reach n q\<close>: going down \<open>q\<close> from the directory \<open>n\<close>, every directory on
  the way, \<open>n\<close> and the last one included, can be listed.
\<close>

fun reach :: "node \<Rightarrow> path \<Rightarrow> bool" where
  "reach (File r w d) q = False"
| "reach (Dir r w es) [] = r"
| "reach (Dir r w es) (x # xs) =
     (r \<and> (case map_of es x of None \<Rightarrow> False | Some c \<Rightarrow> reach c xs))"

definition can_list :: "node \<Rightarrow> path \<Rightarrow> bool" where
  "can_list fs p = (case lookup fs p of Some (Dir r w es) \<Rightarrow> r | _ \<Rightarrow> False)"

text \<open>
  The directory \<open>base_dir @ q\<close> is under the root, for the walk: the root, the
  directory itself and every directory between them can be listed.
\<close>

definition under_root :: "node \<Rightarrow> path \<Rightarrow> path \<Rightarrow> bool" where
  "under_root fs base_dir q = list_all (\<lambda>q'. can_list fs (base_dir @ q')) (prefixes q)"

text \<open>
  The files of the spec's eligibility filter, as a set of paths: an entry \<open>file\<close> of
  a directory under the root that exists, is not a directory, has a name that neither
  starts with the script's prefix nor ends with the output suffix, and is classified
  as text.
\<close>

definition eligible :: "node \<Rightarrow> path \<Rightarrow> path set" where
  "eligible fs base_dir =
     {p. \<exists>q file. p = base_dir @ q @ [file] \<and> under_root fs base_dir q \<and>
           lookup fs p \<noteq> None \<and> \<not> is_dir fs p \<and>
           \<not> startswith file ''llmify'' \<and> \<not> endswith file ''.md.llm'' \<and>
           is_text_file fs p}"

text \<open>What one turn of the loop of lines 38 to 53 appends to the document.\<close>

definition section_of :: "node \<Rightarrow> path \<Rightarrow> path \<Rightarrow> str" where
  "section_of fs base_dir file_path =
     (case relative_to file_path base_dir of
        Inl e \<Rightarrow> []
      | Inr rel_path \<Rightarrow>
          heading rel_path @ (case read_text fs file_path of Inl e \<Rightarrow> [] | Inr content \<Rightarrow> content))"

text \<open>
  The tree of the spec's concrete scenario: \<^verbatim>\<open>a.txt\<close> holding "hello",
  \<^verbatim>\<open>sub/b.txt\<close> holding "world", \<^verbatim>\<open>bin.dat\<close> holding the bytes 00 01 02, and
  \<^verbatim>\<open>llmify.py\<close>.
\<close>

definition scenario :: node where
  "scenario =
     Dir True True
       [(''llmify.py'', File True True [0x23, 0x21]),
        (''bin.dat'', File True True [0, 1, 2]),
        (''sub'', Dir True True [(''b.txt'', File True True [0x77, 0x6F, 0x72, 0x6C, 0x64])]),
        (''a.txt'', File True True [0x68, 0x65, 0x6C, 0x6C, 0x6F])]"

definition start :: run where
  "start = \<lparr>output_file = [], stdout = [], stderr = []\<rparr>"







text \<open>
  Closing \<^verbatim>\<open>output_file\<close> leaves the bytes written in the file: \<open>store fs p d\<close>
  is the tree in which the file at \<open>p\<close> holds \<open>d\<close>.
\<close>

fun store :: "node \<Rightarrow> path \<Rightarrow> bytes \<Rightarrow> node" where
  "store (File r w d0) [] d = File r w d"
| "store (Dir r w es) [] d = Dir r w es"
| "store (File r w d0) (x # xs) d = File r w d0"
| "store (Dir r w es) (x # xs) d =
     Dir r w (map (\<lambda>e. if fst e = x then (x, store (snd e) xs d) else e) es)"

text \<open>
  More trees for the examples: the scenario listed in another order, a root that can
  be written but not listed, the scenario after \<^verbatim>\<open>a.txt\<close> was deleted, and a file
  with a Windows line end.
\<close>

definition shuffled :: node where
  "shuffled =
     Dir True True
       [(''a.txt'', File True True [0x68, 0x65, 0x6C, 0x6C, 0x6F]),
        (''sub'', Dir True True [(''b.txt'', File True True [0x77, 0x6F, 0x72, 0x6C, 0x64])]),
        (''llmify.py'', File True True [0x23, 0x21]),
        (''bin.dat'', File True True [0, 1, 2])]"


definition scenario_later :: node where
  "scenario_later =
     Dir True True
       [(''llmify.py'', File True True [0x23, 0x21]),
        (''bin.dat'', File True True [0, 1, 2]),
        (''sub'', Dir True True [(''b.txt'', File True True [0x77, 0x6F, 0x72, 0x6C, 0x64])])]"

definition crlf :: node where
  "crlf = Dir True True [(''w.txt'', File True True [0x61, 0x0D, 0x0A, 0x62])]"

definition garbled :: node where
  "garbled =
     Dir True True
       [(''g.txt'', File True True [0x61, 0xFF, 0xE2, 0x82, 0xAC, 0xE2, 0x82, 0x0D])]"

text \<open>
  Well-formed UTF-8 (the Unicode standard's table of well-formed byte sequences, RFC
  3629): the byte sequences that encode one scalar value, and the value they encode.
\<close>

fun well_formed :: "nat list \<Rightarrow> bool" where
  "well_formed [b0] = (b0 < 0x80)"
| "well_formed [b0, b1] = (0xC2 \<le> b0 \<and> b0 < 0xE0 \<and> is_continuation b1)"
| "well_formed [b0, b1, b2] =
     (0xE0 \<le> b0 \<and> b0 < 0xF0 \<and> is_continuation b1 \<and> is_continuation b2 \<and>
      (b0 = 0xE0 \<longrightarrow> 0xA0 \<le> b1) \<and> (b0 = 0xED \<longrightarrow> b1 < 0xA0))"
| "well_formed [b0, b1, b2, b3] =
     (0xF0 \<le> b0 \<and> b0 < 0xF5 \<and> is_continuation b1 \<and> is_continuation b2 \<and>
      is_continuation b3 \<and>
      (b0 = 0xF0 \<longrightarrow> 0x90 \<le> b1) \<and> (b0 = 0xF4 \<longrightarrow> b1 < 0x90))"
| "well_formed bs = False"

fun scalar :: "nat list \<Rightarrow> nat" where
  "scalar [b0] = b0"
| "scalar [b0, b1] = (b0 mod 0x20) * 0x40 + b1 mod 0x40"
| "scalar [b0, b1, b2] = ((b0 mod 0x10) * 0x40 + b1 mod 0x40) * 0x40 + b2 mod 0x40"
| "scalar [b0, b1, b2, b3] =
     (((b0 mod 8) * 0x40 + b1 mod 0x40) * 0x40 + b2 mod 0x40) * 0x40 + b3 mod 0x40"
| "scalar bs = 0xFFFD"

text \<open>Some well-formed sequence starts the bytes \<open>xs\<close>.\<close>

definition decodable :: "nat list \<Rightarrow> bool" where
  "decodable xs \<longleftrightarrow> (\<exists>w. well_formed w \<and> prefix w xs)"

text \<open>
  \<open>segments bs ps\<close>: the pieces \<open>ps\<close> cut the bytes \<open>bs\<close> from left to right,
  each piece being a well-formed sequence with its scalar value, or a non-empty run of
  bytes at none of which a well-formed sequence starts, with U+FFFD in its place.
\<close>

inductive segments :: "nat list \<Rightarrow> (nat list \<times> nat) list \<Rightarrow> bool" where
  finished: "segments [] []"
| decoded: "well_formed w \<Longrightarrow> segments rest ps \<Longrightarrow> segments (w @ rest) ((w, scalar w) # ps)"
| replaced:
    "g \<noteq> [] \<Longrightarrow> \<forall>i < length g. \<not> decodable (drop i (g @ rest)) \<Longrightarrow> segments rest ps \<Longrightarrow>
     segments (g @ rest) ((g, 0xFFFD) # ps)"

text \<open>What \<open>decode_one\<close> may return on the bytes \<open>b # bs\<close>.\<close>

definition fits :: "nat \<Rightarrow> nat list \<Rightarrow> nat \<Rightarrow> nat \<Rightarrow> bool" where
  "fits b bs c n \<longleftrightarrow>
     1 \<le> n \<and> n \<le> Suc (length bs) \<and>
     ((well_formed (b # take (n - 1) bs) \<and> c = scalar (b # take (n - 1) bs)) \<or>
      (c = 0xFFFD \<and> \<not> decodable (b # bs) \<and> (\<forall>x \<in> set (take (n - 1) bs). is_continuation x)))"

section \<open>Lemmas on the two loops\<close>

lemma scan_files_eq:
  "scan_files fs root files acc = acc @ map (\<lambda>f. root @ [f]) (filter (accepted fs root) files)"
  by (induction files arbitrary: acc) (simp_all add: accepted_def Let_def)

lemma scan_walk_eq:
  "scan_walk fs ws acc = acc @ concat (map (found fs) ws)"
  by (induction ws arbitrary: acc) (auto simp: scan_files_eq found_def)

lemma collect_files_eq:
  "collect_files fs base_dir = sort (concat (map (found fs) (os_walk fs base_dir)))"
  by (simp add: collect_files_def scan_walk_eq)

lemma collected_accepted:
  assumes "p \<in> set (collect_files fs base_dir)"
  shows "p \<noteq> [] \<and> accepted fs (butlast p) (last p)"
  using assms by (auto simp: collect_files_eq found_def)

lemma is_text_file_iff:
  "is_text_file fs p \<longleftrightarrow> (\<exists>d. open_read fs p = Inr d \<and> 0 \<notin> set (take 1024 d))"
  by (auto simp: is_text_file_def Let_def split: sum.splits)

lemma process_file_output:
  "output_file (process_file fs base_dir p st) = output_file st @ section_of fs base_dir p"
  by (simp add: process_file_def section_of_def Let_def split: sum.splits)

lemma write_files_output:
  "output_file (write_files fs base_dir ps st) =
     output_file st @ concat (map (section_of fs base_dir) ps)"
  by (induction ps arbitrary: st) (simp_all add: process_file_output)

section \<open>Lemmas on the walk\<close>

lemma listed_files_Nil [simp]: "listed_files [] = []"
  by (simp add: listed_files_def)

lemma listed_files_Cons [simp]:
  "listed_files ((root, dirs, files) # ws) = map (\<lambda>f. root @ [f]) files @ listed_files ws"
  by (simp add: listed_files_def)

lemma listed_files_append [simp]:
  "listed_files (xs @ ys) = listed_files xs @ listed_files ys"
  by (simp add: listed_files_def)

lemma listed_files_concat:
  "listed_files (concat xss) = concat (map listed_files xss)"
  by (induction xss) simp_all

lemma listed_walk_Dir:
  "listed_files (walk here (Dir r w es)) =
     (if r then
        map (\<lambda>f. here @ [f]) (map fst (filter (\<lambda>e. \<not> is_Dir (snd e)) es)) @
        concat (map (\<lambda>e. if is_Dir (snd e) then listed_files (walk (here @ [fst e]) (snd e))
                         else []) es)
      else [])"
  by (simp add: listed_files_concat comp_def if_distrib[of listed_files] cong: if_cong)

lemma reach_is_Dir: "reach n q \<Longrightarrow> is_Dir n"
  by (cases n) simp_all

lemma walk_complete:
  "reach n q \<Longrightarrow> lookup n (q @ [f]) = Some c \<Longrightarrow> \<not> is_Dir c \<Longrightarrow>
   here @ q @ [f] \<in> set (listed_files (walk here n))"
proof (induction q arbitrary: n here)
  case Nil
  then obtain r w es where n: "n = Dir r w es" by (cases n) simp_all
  with Nil have r: r and m: "map_of es f = Some c" by (simp_all split: option.splits)
  from m have "(f, c) \<in> set es" by (rule map_of_SomeD)
  with Nil(3) have "here @ [f] \<in> (\<lambda>x. here @ [fst x]) ` {e \<in> set es. \<not> is_Dir (snd e)}"
    by force
  with r n show ?case by (simp add: listed_walk_Dir del: walk.simps)
next
  case (Cons x xs)
  then obtain r w es where n: "n = Dir r w es" by (cases n) simp_all
  with Cons.prems obtain c' where r: r and m: "map_of es x = Some c'" and rc: "reach c' xs"
    and l: "lookup c' (xs @ [f]) = Some c"
    by (auto split: option.splits)
  from m have e: "(x, c') \<in> set es" by (rule map_of_SomeD)
  from rc have d: "is_Dir c'" by (rule reach_is_Dir)
  from Cons.IH[OF rc l Cons.prems(3), of "here @ [x]"]
  have "here @ x # xs @ [f] \<in> set (listed_files (walk (here @ [x]) c'))" by simp
  with e d r n show ?case
    by (force simp add: listed_walk_Dir simp del: walk.simps)
qed

lemma walk_sound:
  "wf_tree n \<Longrightarrow> p \<in> set (listed_files (walk here n)) \<Longrightarrow>
   \<exists>q f c. p = here @ q @ [f] \<and> reach n q \<and> lookup n (q @ [f]) = Some c \<and> \<not> is_Dir c"
proof (induction n arbitrary: here p rule: wf_tree.induct)
  case (1 r w d)
  then show ?case by simp
next
  case (2 r w es)
  from 2(2) have dist: "distinct (map fst es)"
    and wfc: "\<And>e. e \<in> set es \<Longrightarrow> wf_tree (snd e)"
    by simp_all
  from 2(3) have r: r by (simp add: listed_walk_Dir del: walk.simps split: if_splits)
  from 2(3) r consider
      (top) e where "e \<in> set es" "\<not> is_Dir (snd e)" "p = here @ [fst e]"
    | (sub) e where "e \<in> set es" "is_Dir (snd e)"
        "p \<in> set (listed_files (walk (here @ [fst e]) (snd e)))"
    by (auto simp add: listed_walk_Dir simp del: walk.simps split: if_splits)
  then show ?case
  proof cases
    case top
    from top(1) dist have "map_of es (fst e) = Some (snd e)"
      by (metis map_of_is_SomeI prod.collapse)
    with top r show ?thesis
      by (intro exI[of _ "[]"] exI[of _ "fst e"] exI[of _ "snd e"]) simp
  next
    case sub
    from 2(1)[OF sub(1) wfc[OF sub(1)] sub(3)]
    obtain q f c where q: "p = (here @ [fst e]) @ q @ [f]" "reach (snd e) q"
       "lookup (snd e) (q @ [f]) = Some c" "\<not> is_Dir c" by blast
    from sub(1) dist have "map_of es (fst e) = Some (snd e)"
      by (metis map_of_is_SomeI prod.collapse)
    with q r show ?thesis
      by (intro exI[of _ "fst e # q"] exI[of _ f] exI[of _ c]) simp
  qed
qed

section \<open>The listed files are the eligible files\<close>

lemma lookup_append:
  "lookup fs (a @ b) = (case lookup fs a of None \<Rightarrow> None | Some n \<Rightarrow> lookup n b)"
proof (induction a arbitrary: fs)
  case Nil
  show ?case by simp
next
  case (Cons x xs)
  show ?case by (cases fs) (simp_all add: Cons split: option.splits)
qed

lemma can_list_iff: "can_list fs p \<longleftrightarrow> (\<exists>w es. lookup fs p = Some (Dir True w es))"
  by (auto simp: can_list_def split: option.splits node.splits)

lemma under_root_Nil: "under_root fs base_dir [] = can_list fs base_dir"
  by (simp add: under_root_def)

lemma under_root_Cons:
  "under_root fs base_dir (x # xs) = (can_list fs base_dir \<and> under_root fs (base_dir @ [x]) xs)"
  by (simp add: under_root_def list_all_iff)

lemma reach_under_root:
  "lookup fs base_dir = Some n \<Longrightarrow> reach n q = under_root fs base_dir q"
proof (induction q arbitrary: n base_dir)
  case Nil
  then show ?case by (cases n) (auto simp: under_root_Nil can_list_def)
next
  case (Cons x xs)
  show ?case
  proof (cases n)
    case (File r w d)
    with Cons.prems show ?thesis by (simp add: under_root_Cons can_list_def)
  next
    case (Dir r w es)
    show ?thesis
    proof (cases "map_of es x")
      case None
      with Dir Cons.prems have "lookup fs (base_dir @ [x]) = None"
        by (simp add: lookup_append)
      then have "\<not> under_root fs (base_dir @ [x]) xs"
        by (cases xs) (simp_all add: under_root_Nil under_root_Cons can_list_def)
      with None Dir show ?thesis by (simp add: under_root_Cons)
    next
      case (Some c)
      with Dir Cons.prems have "lookup fs (base_dir @ [x]) = Some c"
        by (simp add: lookup_append)
      from Cons.IH[OF this] Some Dir Cons.prems show ?thesis
        by (auto simp add: under_root_Cons can_list_def)
    qed
  qed
qed

lemma under_root_can_list: "under_root fs base_dir q \<Longrightarrow> can_list fs base_dir"
  by (cases q) (simp_all add: under_root_Nil under_root_Cons)

lemma found_listed:
  "concat (map (found fs) ws) =
     filter (\<lambda>p. accepted fs (butlast p) (last p)) (listed_files ws)"
  by (induction ws) (auto simp: found_def filter_map comp_def)

lemma set_collect_files:
  "set (collect_files fs base_dir) =
     {p \<in> set (listed_files (os_walk fs base_dir)). accepted fs (butlast p) (last p)}"
  by (simp add: collect_files_eq found_listed)

lemma collect_complete:
  assumes "under_root fs base_dir q" and "accepted fs (base_dir @ q) file"
    and "lookup fs (base_dir @ q @ [file]) = Some c" and "\<not> is_Dir c"
  shows "base_dir @ q @ [file] \<in> set (collect_files fs base_dir)"
proof -
  from assms(1) have "can_list fs base_dir" by (rule under_root_can_list)
  then obtain n where n: "lookup fs base_dir = Some n"
    by (auto simp: can_list_iff)
  with assms(1) have r: "reach n q" by (simp add: reach_under_root)
  from n assms(3) have "lookup n (q @ [file]) = Some c"
    by (simp add: lookup_append)
  from walk_complete[OF r this assms(4), of base_dir] n
  have "base_dir @ q @ [file] \<in> set (listed_files (os_walk fs base_dir))"
    by (simp add: os_walk_def)
  moreover have "butlast (base_dir @ q @ [file]) = base_dir @ q"
    by (simp add: butlast_append)
  ultimately show ?thesis using assms(2)
    by (simp add: set_collect_files)
qed

lemma wf_tree_lookup: "wf_tree fs \<Longrightarrow> lookup fs p = Some n \<Longrightarrow> wf_tree n"
proof (induction p arbitrary: fs)
  case Nil
  then show ?case by simp
next
  case (Cons x xs)
  then show ?case
    by (cases fs) (auto split: option.splits dest!: map_of_SomeD)
qed

lemma collect_sound:
  assumes "wf_tree fs" and "p \<in> set (collect_files fs base_dir)"
  shows "\<exists>q file. p = base_dir @ q @ [file] \<and> under_root fs base_dir q \<and>
           accepted fs (base_dir @ q) file \<and> lookup fs p \<noteq> None"
proof -
  from assms(2) have l: "p \<in> set (listed_files (os_walk fs base_dir))"
    and a: "accepted fs (butlast p) (last p)"
    by (simp_all add: set_collect_files)
  from l obtain n where n: "lookup fs base_dir = Some n"
    and w: "p \<in> set (listed_files (walk base_dir n))"
    by (auto simp: os_walk_def split: option.splits)
  from assms(1) n have "wf_tree n" by (rule wf_tree_lookup)
  from walk_sound[OF this w] obtain q f c where
    q: "p = base_dir @ q @ [f]" "reach n q" "lookup n (q @ [f]) = Some c" by blast
  from q(2) n have "under_root fs base_dir q" by (simp add: reach_under_root)
  moreover from q(1) a have "accepted fs (base_dir @ q) f"
    by (simp add: butlast_append)
  moreover from q(1,3) n have "lookup fs p \<noteq> None" by (simp add: lookup_append)
  ultimately show ?thesis using q(1) by blast
qed

lemma set_collect_eligible:
  assumes "wf_tree fs"
  shows "set (collect_files fs base_dir) = eligible fs base_dir"
proof (intro set_eqI iffI)
  fix p assume "p \<in> set (collect_files fs base_dir)"
  from collect_sound[OF assms this] show "p \<in> eligible fs base_dir"
    by (auto simp: eligible_def accepted_def)
next
  fix p assume "p \<in> eligible fs base_dir"
  then obtain q f where p: "p = base_dir @ q @ [f]" and u: "under_root fs base_dir q"
    and l: "lookup fs p \<noteq> None" and d: "\<not> is_dir fs p"
    and a: "accepted fs (base_dir @ q) f"
    by (auto simp: eligible_def accepted_def)
  from l obtain c where c: "lookup fs p = Some c" by blast
  with d have "\<not> is_Dir c" by (cases c) (simp_all add: is_dir_def)
  from collect_complete[OF u a c[unfolded p] this] p
  show "p \<in> set (collect_files fs base_dir)" by simp
qed

section \<open>Order and absence of duplicates\<close>

lemma listed_walk_prefix:
  "p \<in> set (listed_files (walk here n)) \<Longrightarrow> \<exists>s. s \<noteq> [] \<and> p = here @ s"
proof (induction here n arbitrary: p rule: walk.induct)
  case (1 here r w d)
  then show ?case by simp
next
  case (2 here r w es)
  from 2(2) have r: r by (simp add: listed_walk_Dir del: walk.simps split: if_splits)
  from 2(2) r consider
      (top) e where "e \<in> set es" "p = here @ [fst e]"
    | (sub) e where "e \<in> set es" "is_Dir (snd e)"
        "p \<in> set (listed_files (walk (here @ [fst e]) (snd e)))"
    by (auto simp add: listed_walk_Dir simp del: walk.simps split: if_splits)
  then show ?case
  proof cases
    case top
    then show ?thesis by blast
  next
    case sub
    from 2(1)[OF r sub(1,2,3)] obtain s where "s \<noteq> []" "p = (here @ [fst e]) @ s" by blast
    then show ?thesis by (intro exI[of _ "fst e # s"]) simp
  qed
qed

lemma distinct_concat_tagged:
  assumes "distinct (map k es)"
    and "\<And>e. e \<in> set es \<Longrightarrow> distinct (g e)"
    and "\<And>e x. e \<in> set es \<Longrightarrow> x \<in> set (g e) \<Longrightarrow> tag x = k e"
  shows "distinct (concat (map g es))"
  using assms
proof (induction es)
  case Nil
  show ?case by simp
next
  case (Cons e es)
  have "set (g e) \<inter> (\<Union>e' \<in> set es. set (g e')) = {}"
  proof (rule ccontr)
    assume "set (g e) \<inter> (\<Union>e' \<in> set es. set (g e')) \<noteq> {}"
    then obtain x e' where x: "x \<in> set (g e)" "e' \<in> set es" "x \<in> set (g e')" by blast
    from Cons.prems(3)[of e x] x(1) have "tag x = k e" by simp
    moreover from Cons.prems(3)[of e' x] x(2,3) have "tag x = k e'" by simp
    ultimately have "k e = k e'" by simp
    with x(2) Cons.prems(1) show False by force
  qed
  moreover have "distinct (concat (map g es))"
    using Cons by simp
  ultimately show ?case using Cons.prems(2)[of e] by simp
qed

lemma walk_distinct: "wf_tree n \<Longrightarrow> distinct (listed_files (walk here n))"
proof (induction n arbitrary: here rule: wf_tree.induct)
  case (1 r w d)
  show ?case by simp
next
  case (2 r w es)
  let ?A = "map (\<lambda>f. here @ [f]) (map fst (filter (\<lambda>e. \<not> is_Dir (snd e)) es))"
  let ?g = "\<lambda>e. if is_Dir (snd e) then listed_files (walk (here @ [fst e]) (snd e)) else []"
  from 2(2) have dist: "distinct (map fst es)"
    and wfc: "\<And>e. e \<in> set es \<Longrightarrow> wf_tree (snd e)"
    by simp_all
  have A: "distinct ?A"
    using dist by (simp add: distinct_map_filter distinct_map inj_on_def)
  have tag: "\<And>e x. e \<in> set es \<Longrightarrow> x \<in> set (?g e) \<Longrightarrow> x ! length here = fst e"
  proof -
    fix e x assume "e \<in> set es" "x \<in> set (?g e)"
    then have "x \<in> set (listed_files (walk (here @ [fst e]) (snd e)))"
      by (simp split: if_splits)
    from listed_walk_prefix[OF this] obtain s where "x = (here @ [fst e]) @ s" by blast
    then show "x ! length here = fst e" by (simp add: nth_append)
  qed
  have B: "distinct (concat (map ?g es))"
  proof (rule distinct_concat_tagged[where k = fst and tag = "\<lambda>x. x ! length here"])
    show "distinct (map fst es)" by (rule dist)
    show "\<And>e. e \<in> set es \<Longrightarrow> distinct (?g e)"
      using 2(1) wfc by simp
    show "\<And>e x. e \<in> set es \<Longrightarrow> x \<in> set (?g e) \<Longrightarrow> x ! length here = fst e"
      by (rule tag)
  qed
  have AB: "set ?A \<inter> set (concat (map ?g es)) = {}"
  proof (rule ccontr)
    assume "set ?A \<inter> set (concat (map ?g es)) \<noteq> {}"
    then obtain x where xA: "x \<in> set ?A" and xB: "x \<in> set (concat (map ?g es))"
      by blast
    from xA obtain e where "x = here @ [fst e]" by auto
    moreover from xB obtain e' where "e' \<in> set es" "x \<in> set (?g e')" by auto
    ultimately have x: "e' \<in> set es" "x = here @ [fst e]" "e' \<in> set es" "x \<in> set (?g e')"
      by simp_all
    from x(4) have "x \<in> set (listed_files (walk (here @ [fst e']) (snd e')))"
      by (simp split: if_splits)
    from listed_walk_prefix[OF this] obtain s where "s \<noteq> []" "x = (here @ [fst e']) @ s"
      by blast
    with x(2) show False by simp
  qed
  from A B AB show ?case
    by (simp add: listed_walk_Dir del: walk.simps)
qed

lemma collect_distinct:
  assumes "wf_tree fs"
  shows "distinct (collect_files fs base_dir)"
proof -
  have "distinct (listed_files (os_walk fs base_dir))"
  proof (cases "lookup fs base_dir")
    case None
    then show ?thesis by (simp add: os_walk_def)
  next
    case (Some n)
    with assms have "wf_tree n" by (simp add: wf_tree_lookup)
    with Some show ?thesis by (simp add: os_walk_def walk_distinct)
  qed
  then show ?thesis by (simp add: collect_files_eq found_listed)
qed

lemma collect_sorted: "sorted (collect_files fs base_dir)"
  by (simp add: collect_files_def)



lemma collect_eq_sorted_list:
  assumes "wf_tree fs"
  shows "collect_files fs base_dir = sorted_list_of_set (eligible fs base_dir)"
  using sorted_list_of_set.idem_if_sorted_distinct[OF collect_sorted collect_distinct[OF assms]]
  by (simp add: set_collect_eligible[OF assms])


section \<open>Lemmas on the document\<close>






section \<open>Lemmas on the runs\<close>

lemma process_file_cong:
  "read_text fs1 p = read_text fs2 p \<Longrightarrow>
   process_file fs1 base_dir p st = process_file fs2 base_dir p st"
  by (simp add: process_file_def Let_def split: sum.splits)

lemma write_files_cong:
  "(\<And>p. p \<in> set ps \<Longrightarrow> read_text fs1 p = read_text fs2 p) \<Longrightarrow>
   write_files fs1 base_dir ps st = write_files fs2 base_dir ps st"
proof (induction ps arbitrary: st)
  case Nil
  show ?case by simp
next
  case (Cons p ps)
  have "read_text fs1 p = read_text fs2 p"
    by (rule Cons.prems) simp
  then have "process_file fs1 base_dir p st = process_file fs2 base_dir p st"
    by (rule process_file_cong)
  moreover have "write_files fs1 base_dir ps (process_file fs2 base_dir p st) =
     write_files fs2 base_dir ps (process_file fs2 base_dir p st)"
    by (rule Cons.IH) (rule Cons.prems, simp)
  ultimately show ?case by simp
qed

lemma map_of_replace:
  "map_of es x = Some c \<Longrightarrow>
   map_of (map (\<lambda>e. if fst e = x then (x, v) else e) es) x = Some v"
  by (induction es) (auto split: if_splits)

lemma map_replace_absent:
  "map_of es x = None \<Longrightarrow> map (\<lambda>e. if fst e = x then g e else e) es = es"
  by (induction es) (auto split: if_splits)

lemma open_write_store:
  "open_write fs p = Inr fs' \<Longrightarrow> open_write (store fs' p d) p = Inr fs'"
proof (induction fs p arbitrary: fs' rule: open_write.induct)
  case (1 r w d0)
  then show ?case by (auto split: if_splits)
next
  case (2 r w es)
  then show ?case by simp
next
  case (3 r w d0 x xs)
  then show ?case by simp
next
  case (4 r w es x xs)
  show ?case
  proof (cases "map_of es x")
    case None
    with 4(2) have xs: "xs = []" and w: w
      and fs': "fs' = Dir r w (es @ [(x, File True True [])])"
      by (auto split: if_splits)
    from None have "map (\<lambda>e. if fst e = x then (x, store (snd e) [] d) else e) es = es"
      by (rule map_replace_absent)
    moreover from None have "map (\<lambda>e. if fst e = x then (x, File True True []) else e) es = es"
      by (rule map_replace_absent)
    ultimately show ?thesis using None xs w fs'
      by (simp add: map_add_def)
  next
    case (Some c)
    with 4(2) obtain c' where c': "open_write c xs = Inr c'"
      and fs': "fs' = Dir r w (map (\<lambda>e. if fst e = x then (x, c') else e) es)"
      by (auto split: sum.splits)
    from 4(1)[OF Some c'] have ih: "open_write (store c' xs d) xs = Inr c'" .
    have m: "map_of (map (\<lambda>e. if fst e = x then (x, store c' xs d) else e) es) x =
        Some (store c' xs d)"
      using Some by (rule map_of_replace)
    have e: "map ((\<lambda>e. if fst e = x then (x, store (snd e) xs d) else e) \<circ>
                 (\<lambda>e. if fst e = x then (x, c') else e)) es =
             map (\<lambda>e. if fst e = x then (x, store c' xs d) else e) es"
      by (rule map_cong) auto
    have e2: "map ((\<lambda>e. if fst e = x then (x, c') else e) \<circ>
                 (\<lambda>e. if fst e = x then (x, store c' xs d) else e)) es =
             map (\<lambda>e. if fst e = x then (x, c') else e) es"
      by (rule map_cong) auto
    show ?thesis
      by (simp add: fs' e m ih e2)
  qed
qed

lemma main_rerun:
  assumes "open_write fs (script_dir @ [''microagents.md.llm'']) = Inr fs'"
  shows "main (store fs' (script_dir @ [''microagents.md.llm'']) d) script_dir = main fs script_dir"
  using assms open_write_store[OF assms, of d]
  by (simp add: main_def Let_def)

lemma collect_files_determined:
  assumes "wf_tree fs1" "wf_tree fs2" "eligible fs1 base_dir = eligible fs2 base_dir"
  shows "collect_files fs1 base_dir = collect_files fs2 base_dir"
  using assms by (simp add: collect_eq_sorted_list)



lemma scenario_collect: "collect_files scenario [] = [[''a.txt''], [''sub'', ''b.txt'']]"
  by code_simp

lemma shuffled_collect: "collect_files shuffled [] = [[''a.txt''], [''sub'', ''b.txt'']]"
  by code_simp


lemma heading_parts:
  "heading rel = text_of ''\<newline>\<newline>---\<newline>\<newline># '' @ text_of (str_path rel) @ text_of ''\<newline>\<newline>''"
  by (simp add: heading_def text_of_def)

section \<open>Lemmas on the decoder\<close>

lemma well_formed_length: "well_formed w \<Longrightarrow> 1 \<le> length w \<and> length w \<le> 4"
  by (induction w rule: well_formed.induct) simp_all

lemma well_formed_start:
  "well_formed (x # w) \<Longrightarrow> \<not> is_continuation x"
  by (cases "x # w" rule: well_formed.cases) (auto simp: is_continuation_def)

lemma decodable_iff:
  "decodable xs \<longleftrightarrow>
     well_formed (take 1 xs) \<or> well_formed (take 2 xs) \<or> well_formed (take 3 xs) \<or>
     well_formed (take 4 xs)"
proof
  assume "decodable xs"
  then obtain w where w: "well_formed w" "prefix w xs" by (auto simp: decodable_def)
  from w(2) have t: "w = take (length w) xs" by (auto simp: prefix_def)
  from well_formed_length[OF w(1)] have "length w \<in> {1, 2, 3, 4}" by auto
  with t w(1) show "well_formed (take 1 xs) \<or> well_formed (take 2 xs) \<or>
     well_formed (take 3 xs) \<or> well_formed (take 4 xs)"
    by (metis insertE singletonD)
next
  assume "well_formed (take 1 xs) \<or> well_formed (take 2 xs) \<or> well_formed (take 3 xs) \<or>
     well_formed (take 4 xs)"
  then show "decodable xs"
    unfolding decodable_def by (meson take_is_prefix)
qed

lemma decodable_start: "decodable (x # xs) \<Longrightarrow> \<not> is_continuation x"
  by (auto simp: decodable_def prefix_Cons dest: well_formed_start)


lemma sub_mod1: "0xC0 \<le> b \<Longrightarrow> b < 0xE0 \<Longrightarrow> b - 0xC0 = b mod 0x20" for b :: nat
proof -
  assume a: "0xC0 \<le> b" "b < 0xE0"
  then have "b = (b - 0xC0) + 6 * 0x20" by simp
  then have "b mod 0x20 = (b - 0xC0 + 6 * 0x20) mod 0x20" by simp
  also have "\<dots> = (b - 0xC0) mod 0x20" by (rule mod_mult_self1)
  also from a have "\<dots> = b - 0xC0" by simp
  finally show ?thesis by simp
qed

lemma sub_mod_gen: "k * m \<le> b \<Longrightarrow> b < k * m + m \<Longrightarrow> b - k * m = b mod m" for b :: nat
proof -
  assume a: "k * m \<le> b" "b < k * m + m"
  then have "b = (b - k * m) + k * m" by simp
  then have "b mod m = (b - k * m + k * m) mod m" by simp
  also have "\<dots> = (b - k * m) mod m" by (rule mod_mult_self1)
  also from a have "\<dots> = b - k * m" by simp
  finally show ?thesis by simp
qed

lemma sub_mod2: "0x80 \<le> b \<Longrightarrow> b < 0xC0 \<Longrightarrow> b - 0x80 = b mod 0x40" for b :: nat
  using sub_mod_gen[of 2 "0x40" b] by simp

lemma sub_mod3: "0xE0 \<le> b \<Longrightarrow> b < 0xF0 \<Longrightarrow> b - 0xE0 = b mod 0x10" for b :: nat
  using sub_mod_gen[of 14 "0x10" b] by simp

lemma sub_mod4: "0xF0 \<le> b \<Longrightarrow> b < 0xF8 \<Longrightarrow> b - 0xF0 = b mod 8" for b :: nat
  using sub_mod_gen[of 30 8 b] by simp

lemma decodable_Cons:
  "decodable (b # bs) \<longleftrightarrow>
     well_formed [b] \<or> well_formed (b # take 1 bs) \<or> well_formed (b # take 2 bs) \<or>
     well_formed (b # take 3 bs)"
  by (simp add: decodable_iff numeral_2_eq_2 numeral_3_eq_3 eval_nat_numeral)

lemma decode_one_bad_start:
  "0x80 \<le> b \<Longrightarrow> b < 0xC2 \<Longrightarrow> decode_one b bs = (0xFFFD, 1) \<and> \<not> decodable (b # bs)"
  by (cases bs rule: well_formed.cases) (auto simp: decode_one_def decodable_Cons)

lemmas sub_mod = sub_mod1 sub_mod2 sub_mod3 sub_mod4

lemma fits_ascii:
  "b < 0x80 \<Longrightarrow> decode_one b bs = (c, n) \<Longrightarrow> fits b bs c n"
  by (auto simp: decode_one_def fits_def)

lemma fits_bad_start:
  "0x80 \<le> b \<Longrightarrow> b < 0xC2 \<Longrightarrow> decode_one b bs = (c, n) \<Longrightarrow> fits b bs c n"
  using decode_one_bad_start[of b bs] by (auto simp: fits_def)

lemma fits_two:
  "0xC2 \<le> b \<Longrightarrow> b < 0xE0 \<Longrightarrow> decode_one b bs = (c, n) \<Longrightarrow> fits b bs c n"
  by (cases bs rule: well_formed.cases)
     (auto simp: decode_one_def fits_def decodable_Cons is_continuation_def sub_mod
           split: if_splits)

lemma fits_three:
  "0xE0 \<le> b \<Longrightarrow> b < 0xF0 \<Longrightarrow> decode_one b bs = (c, n) \<Longrightarrow> fits b bs c n"
  by (cases bs rule: well_formed.cases)
     (auto simp: decode_one_def fits_def decodable_Cons is_continuation_def sub_mod
           split: if_splits)

lemma fits_four:
  "0xF0 \<le> b \<Longrightarrow> b < 0xF5 \<Longrightarrow> decode_one b bs = (c, n) \<Longrightarrow> fits b bs c n"
  by (cases bs rule: well_formed.cases)
     (auto simp: decode_one_def fits_def decodable_Cons is_continuation_def sub_mod
           split: if_splits)

lemma fits_beyond:
  "0xF5 \<le> b \<Longrightarrow> decode_one b bs = (c, n) \<Longrightarrow> fits b bs c n"
  by (cases bs rule: well_formed.cases)
     (auto simp: decode_one_def fits_def decodable_Cons)

lemma decode_one_fits: "decode_one b bs = (c, n) \<Longrightarrow> fits b bs c n"
proof -
  assume d: "decode_one b bs = (c, n)"
  consider "b < 0x80" | "0x80 \<le> b" "b < 0xC2" | "0xC2 \<le> b" "b < 0xE0"
    | "0xE0 \<le> b" "b < 0xF0" | "0xF0 \<le> b" "b < 0xF5" | "0xF5 \<le> b"
    by linarith
  then show ?thesis
    using d
    by cases (rule fits_ascii fits_bad_start fits_two fits_three fits_four fits_beyond;
        assumption)+
qed

lemma decode_pieces_segments: "segments bs (decode_pieces bs)"
proof (induction bs rule: decode_pieces.induct)
  case 1
  show ?case by (simp add: segments.finished)
next
  case (2 b bs)
  obtain c n where d: "decode_one b bs = (c, n)" by (cases "decode_one b bs")
  let ?w = "b # take (n - 1) bs" and ?rest = "drop (n - 1) bs"
  from d have ih: "segments ?rest (decode_pieces ?rest)"
    by (intro 2[of c n]) simp
  have split: "b # bs = ?w @ ?rest" by simp
  from decode_one_fits[OF d] have n: "1 \<le> n" "n \<le> Suc (length bs)"
    by (simp_all add: fits_def)
  from decode_one_fits[OF d] consider
      (good) "well_formed ?w" "c = scalar ?w"
    | (bad) "c = 0xFFFD" "\<not> decodable (b # bs)" "\<forall>x \<in> set (take (n - 1) bs). is_continuation x"
    by (auto simp: fits_def)
  then have "segments (?w @ ?rest) ((?w, c) # decode_pieces ?rest)"
  proof cases
    case good
    then show ?thesis using ih by (simp only: segments.decoded)
  next
    case bad
    have "\<forall>i < length ?w. \<not> decodable (drop i (?w @ ?rest))"
    proof (intro allI impI)
      fix i assume i: "i < length ?w"
      show "\<not> decodable (drop i (?w @ ?rest))"
      proof (cases i)
        case 0
        with bad(2) show ?thesis by simp
      next
        case (Suc j)
        with i n have j: "j < n - 1" "j < length bs" by simp_all
        then have "drop i (?w @ ?rest) = bs ! j # drop (Suc j) bs"
          using Suc by (simp add: Cons_nth_drop_Suc)
        moreover from j have "bs ! j \<in> set (take (n - 1) bs)"
          by (metis in_set_conv_nth length_take min_less_iff_conj nth_take)
        with bad(3) have "is_continuation (bs ! j)" by blast
        ultimately show ?thesis by (auto dest: decodable_start)
      qed
    qed
    with bad(1) ih show ?thesis
      by (intro segments.replaced[of ?w ?rest, folded bad(1)]) simp_all
  qed
  with d show ?case by simp
qed

section \<open>Properties\<close>




text \<open>
  C2 (text classification). \<open>is_text_file\<close> answers true exactly when the file can
  be opened and read and the first 1024 bytes read hold no null byte. A file it
  answers false for, because of a null byte in that window or because the read fails,
  is never in \<^verbatim>\<open>all_files\<close>, and the document holds one section for each
  member of \<^verbatim>\<open>all_files\<close> and nothing else.
\<close>

theorem text_classification:
  "(is_text_file fs p \<longleftrightarrow> (\<exists>d. open_read fs p = Inr d \<and> 0 \<notin> set (take 1024 d))) \<and>
   (\<not> is_text_file fs p \<longrightarrow> p \<notin> set (collect_files fs base_dir)) \<and>
   output_file (process_directory fs fs_read base_dir st) =
     output_file st @ concat (map (section_of fs_read base_dir) (collect_files fs base_dir))"
  using collected_accepted[of p fs base_dir]
  by (auto simp: is_text_file_iff accepted_def process_directory_def write_files_output)

theorem text_classification_witness:
  "open_read scenario [''bin.dat''] = Inr [0, 1, 2] \<and>
   \<not> is_text_file scenario [''bin.dat''] \<and>
   [''bin.dat''] \<notin> set (collect_files scenario [])"
proof -
  have r: "open_read scenario [''bin.dat''] = Inr [0, 1, 2]"
    by (simp add: scenario_def open_read_def)
  then have "\<not> is_text_file scenario [''bin.dat'']"
    by (simp add: is_text_file_def)
  with r text_classification[of scenario "[''bin.dat'']" "[]"] show ?thesis
    by blast
qed




text \<open>
  C4 (unreadable entry). When \<^verbatim>\<open>a.txt\<close> of the scenario is deleted after the walk,
  the run goes on, reports the file on standard error and writes the section of
  \<^verbatim>\<open>sub/b.txt\<close>; but the heading of \<^verbatim>\<open>a.txt\<close>, written at line 44 before the
  file is opened at line 47, stays in the document with nothing under it.
\<close>

theorem unreadable_entry_keeps_heading:
  "collect_files scenario [] = [[''a.txt''], [''sub'', ''b.txt'']] \<and>
   read_text scenario_later [''a.txt''] = Inl FileNotFoundError \<and>
   process_directory scenario scenario_later [] start =
     \<lparr>output_file =
        text_of ''\<newline>\<newline>---\<newline>\<newline># a.txt\<newline>\<newline>\<newline>\<newline>---\<newline>\<newline># sub/b.txt\<newline>\<newline>world'',
      stdout = [Processed [''sub'', ''b.txt'']],
      stderr = [Error_processing [''a.txt''] FileNotFoundError]\<rparr>"
  by code_simp

text \<open>
  C5 (section format), as amended. For a file that can be read, one turn of the loop
  appends exactly two line feeds, three hyphens, two line feeds, a hash and a space,
  the relative path, two line feeds, and then the text that the text-mode read
  returns: the bytes decoded as UTF-8 with replacement, in which every carriage return
  with its line feed, and every other carriage return, has become one line feed.
  Nothing else is added. The document of \<open>main\<close> is the banner followed by the
  sections.
\<close>

theorem section_format:
  "(open_read fs (base_dir @ rel) = Inr d \<longrightarrow>
      process_file fs base_dir (base_dir @ rel) st =
        st\<lparr>output_file := output_file st @
              text_of ''\<newline>\<newline>---\<newline>\<newline># '' @ text_of (str_path rel) @ text_of ''\<newline>\<newline>'' @
              universal_newlines (decode_utf8_replace d),
            stdout := stdout st @ [Processed rel]\<rparr>) \<and>
   (main fs' script_dir = Inr r \<longrightarrow>
      (\<exists>fs''. open_write fs' (script_dir @ [''microagents.md.llm'']) = Inr fs'' \<and>
         output_file r =
           text_of ''# OpenHands Microagents Documentation\<newline>\<newline>'' @
           text_of ''This file contains the concatenated contents of all files in the .openhands/microagents directory.\<newline>'' @
           concat (map (section_of fs'' script_dir) (collect_files fs'' script_dir))))"
proof (intro conjI impI)
  assume "open_read fs (base_dir @ rel) = Inr d"
  then have "read_text fs (base_dir @ rel) = Inr (universal_newlines (decode_utf8_replace d))"
    by (simp add: read_text_def)
  then show "process_file fs base_dir (base_dir @ rel) st =
        st\<lparr>output_file := output_file st @
              text_of ''\<newline>\<newline>---\<newline>\<newline># '' @ text_of (str_path rel) @ text_of ''\<newline>\<newline>'' @
              universal_newlines (decode_utf8_replace d),
            stdout := stdout st @ [Processed rel]\<rparr>"
    by (simp add: process_file_def relative_to_def heading_parts)
next
  assume m: "main fs' script_dir = Inr r"
  then obtain fs'' where o: "open_write fs' (script_dir @ [''microagents.md.llm'']) = Inr fs''"
    by (auto simp: main_def Let_def split: sum.splits)
  with m have "output_file r = banner @
      concat (map (section_of fs'' script_dir) (collect_files fs'' script_dir))"
    by (auto simp: main_def Let_def process_directory_def write_files_output)
  with o show "\<exists>fs''. open_write fs' (script_dir @ [''microagents.md.llm'']) = Inr fs'' \<and>
         output_file r =
           text_of ''# OpenHands Microagents Documentation\<newline>\<newline>'' @
           text_of ''This file contains the concatenated contents of all files in the .openhands/microagents directory.\<newline>'' @
           concat (map (section_of fs'' script_dir) (collect_files fs'' script_dir))"
    by (auto simp: banner_def text_of_def)
qed

theorem section_format_witness:
  "open_read crlf [''w.txt''] = Inr [0x61, 0x0D, 0x0A, 0x62] \<and>
   process_file crlf [] [''w.txt''] start =
     \<lparr>output_file = text_of ''\<newline>\<newline>---\<newline>\<newline># w.txt\<newline>\<newline>a\<newline>b'',
      stdout = [Processed [''w.txt'']], stderr = []\<rparr> \<and>
   (\<exists>r. main crlf [] = Inr r \<and>
     output_file r = banner @ text_of ''\<newline>\<newline>---\<newline>\<newline># w.txt\<newline>\<newline>a\<newline>b'')"
proof -
  have o: "open_read crlf ([] @ [''w.txt'']) = Inr [0x61, 0x0D, 0x0A, 0x62]" by code_simp
  have p: "process_file crlf [] [''w.txt''] start =
     \<lparr>output_file = text_of ''\<newline>\<newline>---\<newline>\<newline># w.txt\<newline>\<newline>a\<newline>b'',
      stdout = [Processed [''w.txt'']], stderr = []\<rparr>" by code_simp
  have m: "main crlf [] =
      Inr \<lparr>output_file = banner @ text_of ''\<newline>\<newline>---\<newline>\<newline># w.txt\<newline>\<newline>a\<newline>b'',
           stdout = [Starting [], Output_to [''microagents.md.llm''], Processed [''w.txt''],
                     Done [''microagents.md.llm'']],
           stderr = []\<rparr>" by code_simp
  from section_format[of crlf "[]" "[''w.txt'']" _ start crlf "[]"] o p m
  show ?thesis by auto
qed

text \<open>
  C5 as stated fails: the body is not the raw decoded content. The bytes 61 0D 0A 62
  decode to four code points, and the section holds three.
\<close>

theorem section_not_raw:
  "open_read crlf [''w.txt''] = Inr [0x61, 0x0D, 0x0A, 0x62] \<and>
   decode_utf8_replace [0x61, 0x0D, 0x0A, 0x62] = [0x61, 0x0D, 0x0A, 0x62] \<and>
   output_file (process_directory crlf crlf [] start) =
     heading [''w.txt''] @ [0x61, 0x0A, 0x62]"
  by code_simp

text \<open>
  C6 (self exclusion). A file whose name starts with \<^verbatim>\<open>llmify\<close> or ends with
  \<^verbatim>\<open>.md.llm\<close> is never in \<^verbatim>\<open>all_files\<close>, whatever it holds, and the document
  holds one section for each member of \<^verbatim>\<open>all_files\<close> and nothing else.
\<close>

theorem self_exclusion:
  "startswith file ''llmify'' \<or> endswith file ''.md.llm'' \<Longrightarrow>
   root @ [file] \<notin> set (collect_files fs base_dir) \<and>
   output_file (process_directory fs fs_read base_dir st) =
     output_file st @ concat (map (section_of fs_read base_dir) (collect_files fs base_dir))"
  using collected_accepted[of "root @ [file]" fs base_dir]
  by (auto simp: accepted_def process_directory_def write_files_output)

theorem self_exclusion_witness:
  "startswith ''llmify.py'' ''llmify'' \<and> is_text_file scenario [''llmify.py''] \<and>
   [''llmify.py''] \<notin> set (collect_files scenario []) \<and>
   output_file (process_directory scenario scenario [] start) =
     text_of ''\<newline>\<newline>---\<newline>\<newline># a.txt\<newline>\<newline>hello\<newline>\<newline>---\<newline>\<newline># sub/b.txt\<newline>\<newline>world''"
proof -
  have s: "startswith ''llmify.py'' ''llmify''"
    by (simp add: startswith_def)
  have t: "is_text_file scenario [''llmify.py'']"
    by (simp add: scenario_def is_text_file_def open_read_def)
  have d: "output_file (process_directory scenario scenario [] start) =
     text_of ''\<newline>\<newline>---\<newline>\<newline># a.txt\<newline>\<newline>hello\<newline>\<newline>---\<newline>\<newline># sub/b.txt\<newline>\<newline>world''"
    by code_simp
  from s t d self_exclusion[of "''llmify.py''" "[]" scenario "[]" scenario start] show ?thesis
    by simp
qed

text \<open>
  C7 (determinism). The run is a function of the eligible files and what they hold:
  two well-formed trees with the same eligible paths and the same bytes in them give
  the same document and the same printed lines, in whatever order their directories
  list the entries. And a second run of \<open>main\<close>, which finds the output file of the
  first run in the tree, whatever was stored in it, gives the result of the first.
\<close>

theorem deterministic_output:
  "(wf_tree fs1 \<and> wf_tree fs2 \<and> eligible fs1 base_dir = eligible fs2 base_dir \<and>
    (\<forall>p \<in> eligible fs1 base_dir. open_read fs1 p = open_read fs2 p) \<longrightarrow>
      process_directory fs1 fs1 base_dir st = process_directory fs2 fs2 base_dir st) \<and>
   (open_write fs (script_dir @ [''microagents.md.llm'']) = Inr fs' \<longrightarrow>
      main (store fs' (script_dir @ [''microagents.md.llm'']) d) script_dir = main fs script_dir)"
proof (intro conjI impI)
  assume a: "wf_tree fs1 \<and> wf_tree fs2 \<and> eligible fs1 base_dir = eligible fs2 base_dir \<and>
    (\<forall>p \<in> eligible fs1 base_dir. open_read fs1 p = open_read fs2 p)"
  then have c: "collect_files fs1 base_dir = collect_files fs2 base_dir"
    by (simp add: collect_files_determined)
  have "write_files fs1 base_dir (collect_files fs2 base_dir) st =
        write_files fs2 base_dir (collect_files fs2 base_dir) st"
  proof (rule write_files_cong)
    fix p assume "p \<in> set (collect_files fs2 base_dir)"
    with a have "p \<in> eligible fs1 base_dir"
      by (simp add: set_collect_eligible)
    with a have "open_read fs1 p = open_read fs2 p" by blast
    then show "read_text fs1 p = read_text fs2 p" by (simp add: read_text_def)
  qed
  with c show "process_directory fs1 fs1 base_dir st = process_directory fs2 fs2 base_dir st"
    by (simp add: process_directory_def)
next
  assume "open_write fs (script_dir @ [''microagents.md.llm'']) = Inr fs'"
  then show "main (store fs' (script_dir @ [''microagents.md.llm'']) d) script_dir =
      main fs script_dir"
    by (rule main_rerun)
qed

theorem deterministic_output_witness:
  "wf_tree scenario \<and> wf_tree shuffled \<and> scenario \<noteq> shuffled \<and>
   eligible scenario [] = eligible shuffled [] \<and>
   process_directory scenario scenario [] start = process_directory shuffled shuffled [] start \<and>
   (\<exists>fs'. open_write scenario [''microagents.md.llm''] = Inr fs' \<and>
      main (store fs' [''microagents.md.llm''] [0x23, 0x20, 0x4F]) [] = main scenario [])"
proof -
  have w1: "wf_tree scenario" by code_simp
  have w2: "wf_tree shuffled" by code_simp
  have n: "scenario \<noteq> shuffled" by (simp add: scenario_def shuffled_def)
  have e1: "eligible scenario [] = set [[''a.txt''], [''sub'', ''b.txt'']]"
    using set_collect_eligible[OF w1, of "[]"] by (simp only: scenario_collect)
  have e2: "eligible shuffled [] = set [[''a.txt''], [''sub'', ''b.txt'']]"
    using set_collect_eligible[OF w2, of "[]"] by (simp only: shuffled_collect)
  have r1: "open_read scenario [''a.txt''] = open_read shuffled [''a.txt'']" by code_simp
  have r2: "open_read scenario [''sub'', ''b.txt''] = open_read shuffled [''sub'', ''b.txt'']"
    by code_simp
  have r: "\<forall>p \<in> eligible scenario []. open_read scenario p = open_read shuffled p"
    using r1 r2 by (simp add: e1)
  obtain fs' where o: "open_write scenario ([] @ [''microagents.md.llm'']) = Inr fs'"
    by (simp add: scenario_def)
  from deterministic_output[of scenario shuffled "[]" start scenario "[]" fs' "[0x23, 0x20, 0x4F]"]
    w1 w2 e1 e2 r o n
  show ?thesis by auto
qed

text \<open>
  C8 (decoding never fails). Whatever bytes a file holds, the decoder cuts them from
  left to right into pieces, each a well-formed UTF-8 sequence that gives its scalar
  value, or a run of bytes at none of which a well-formed sequence starts, which gives
  one U+FFFD in its place. Reading a file as text fails only when opening it fails:
  once the file is open, the text is returned whatever the bytes are.
\<close>

theorem decoding_total:
  "segments (map unat d) (decode_pieces (map unat d)) \<and>
   decode_utf8_replace d = map snd (decode_pieces (map unat d)) \<and>
   (read_text fs file_path = Inl e \<longleftrightarrow> open_read fs file_path = Inl e) \<and>
   (open_read fs file_path = Inr d \<longrightarrow>
      read_text fs file_path = Inr (universal_newlines (decode_utf8_replace d)))"
  by (auto simp: decode_pieces_segments decode_utf8_replace_def read_text_def split: sum.splits)

theorem decoding_total_witness:
  "open_read garbled [''g.txt''] = Inr [0x61, 0xFF, 0xE2, 0x82, 0xAC, 0xE2, 0x82, 0x0D] \<and>
   segments [0x61, 0xFF, 0xE2, 0x82, 0xAC, 0xE2, 0x82, 0x0D]
     [([0x61], 0x61), ([0xFF], 0xFFFD), ([0xE2, 0x82, 0xAC], 0x20AC), ([0xE2, 0x82], 0xFFFD),
      ([0x0D], 0x0D)] \<and>
   read_text garbled [''g.txt''] = Inr [0x61, 0xFFFD, 0x20AC, 0xFFFD, 0x0A]"
proof -
  let ?d = "[0x61, 0xFF, 0xE2, 0x82, 0xAC, 0xE2, 0x82, 0x0D] :: bytes"
  have o: "open_read garbled [''g.txt''] = Inr ?d"
    by (simp add: garbled_def open_read_def)
  have u: "map unat ?d = [0x61, 0xFF, 0xE2, 0x82, 0xAC, 0xE2, 0x82, 0x0D]" by simp
  have p: "decode_pieces [0x61, 0xFF, 0xE2, 0x82, 0xAC, 0xE2, 0x82, 0x0D] =
     [([0x61], 0x61), ([0xFF], 0xFFFD), ([0xE2, 0x82, 0xAC], 0x20AC), ([0xE2, 0x82], 0xFFFD),
      ([0x0D], 0x0D)]"
    by (simp add: decode_one_def is_continuation_def)
  have n: "universal_newlines [0x61, 0xFFFD, 0x20AC, 0xFFFD, 0x0D] =
     [0x61, 0xFFFD, 0x20AC, 0xFFFD, 0x0A]" by simp
  from decoding_total[of ?d garbled "[''g.txt'']"] o show ?thesis
    unfolding u p by (simp add: n)
qed





end
